theory Spec2Isabelle
  imports Main "HOL-Library.Sublist"
begin

section \<open>Configuration parser (Parser.h): shallow embedding\<close>

text \<open>
  The model follows \<^verbatim>\<open>src/Parser.h\<close> function by function.  A \<^verbatim>\<open>std::string\<close> is a
  \<^typ>\<open>string\<close> (a list of 8-bit characters), a \<^verbatim>\<open>std::size_t\<close> is a \<^typ>\<open>nat\<close>
  (sizes stay below \<open>2 ^ 64\<close>; where the source subtracts sizes and the difference can
  be negative the wrap-around is written out, see \<open>size_t_of_int\<close>), an exception or a
  failed \<^verbatim>\<open>assert\<close> is an \<open>Inl\<close> result.
\<close>

subsection \<open>Errors\<close>

datatype error =
    RuntimeError string nat
  | OutOfRange
  | InvalidArgument
  | AssertionFailed
  | NullPointer
  | InvalidIterator

text \<open>
  \<open>RuntimeError label n\<close> is the \<^verbatim>\<open>std::runtime_error\<close> of \<^verbatim>\<open>Parser::Error\<close>
  (label and \<^verbatim>\<open>mLineNumber\<close>); \<open>OutOfRange\<close> and \<open>InvalidArgument\<close> are the
  exceptions of \<^verbatim>\<open>std::string::substr\<close> and \<^verbatim>\<open>std::stoi\<close>; \<open>AssertionFailed\<close> is an
  \<^verbatim>\<open>assert\<close> that does not hold; \<open>NullPointer\<close> is the dereference of a null
  \<^verbatim>\<open>Section*\<close> and \<open>InvalidIterator\<close> the dereference of an iterator that points
  to no node of its map.
\<close>

definition and_then :: "error + 'a \<Rightarrow> ('a \<Rightarrow> error + 'b) \<Rightarrow> error + 'b" where
  "and_then r f = (case r of Inl e \<Rightarrow> Inl e | Inr v \<Rightarrow> f v)"

subsection \<open>The pieces of the C++ library the source calls\<close>

text \<open>
  \<open>size_t_of_int\<close> is the conversion of a signed difference to \<^verbatim>\<open>std::size_t\<close>: a negative
  value wraps around \<open>2 ^ 64\<close>.  \<open>char_at\<close> is \<^verbatim>\<open>std::string::operator[]\<close>, which the source
  calls with an index up to \<^verbatim>\<open>size()\<close> and which yields the null character there.
  \<open>substr\<close> is \<^verbatim>\<open>std::string::substr(pos, n)\<close>: it throws when \<open>pos\<close> is beyond the size and
  otherwise returns at most \<open>n\<close> characters from \<open>pos\<close> on.  \<open>string_find\<close> is
  \<^verbatim>\<open>std::string::find(char)\<close>, with \<open>None\<close> for \<^verbatim>\<open>npos\<close>.  \<open>isspace\<close> and \<open>isdigit\<close> are those
  of the C locale, and \<open>erase_remove_if p\<close> is the idiom
  \<^verbatim>\<open>str.erase(remove_if(str.begin(), str.end(), p), str.end())\<close>.
\<close>

definition size_t_of_int :: "int \<Rightarrow> nat" where
  "size_t_of_int i = (if 0 \<le> i then nat i else nat (2 ^ 64 + i))"

definition char_at :: "string \<Rightarrow> nat \<Rightarrow> char" where
  "char_at s i = (if i < length s then s ! i else CHR 0x00)"

definition substr :: "string \<Rightarrow> nat \<Rightarrow> nat \<Rightarrow> error + string" where
  "substr s pos n = (if length s < pos then Inl OutOfRange else Inr (take n (drop pos s)))"

definition string_find :: "string \<Rightarrow> char \<Rightarrow> nat option" where
  "string_find s c =
     (if c \<in> set s then Some (length (takeWhile (\<lambda>x. x \<noteq> c) s)) else None)"

definition isspace :: "char \<Rightarrow> bool" where
  "isspace c \<longleftrightarrow> c = CHR '' '' \<or> c = CHR 0x09 \<or> c = CHR 0x0A \<or> c = CHR 0x0B
     \<or> c = CHR 0x0C \<or> c = CHR 0x0D"

definition isdigit :: "char \<Rightarrow> bool" where
  "isdigit c \<longleftrightarrow> c \<in> set ''0123456789''"

definition digit_value :: "char \<Rightarrow> int" where
  "digit_value c = int (of_char c) - 48"

fun erase_remove_if :: "(char \<Rightarrow> bool) \<Rightarrow> string \<Rightarrow> string" where
  "erase_remove_if p [] = []"
| "erase_remove_if p (c # cs) = (if p c then erase_remove_if p cs else c # erase_remove_if p cs)"

text \<open>
  \<open>stoi\<close> is \<^verbatim>\<open>std::stoi(str)\<close> as the standard describes it (\<^verbatim>\<open>strtol\<close> in base 10,
  then the range check of a 32-bit \<^verbatim>\<open>int\<close>): leading white space is skipped, one sign is
  accepted, the longest run of digits is converted and whatever follows it is ignored;
  no digit at all is \<^verbatim>\<open>std::invalid_argument\<close>, a value outside \<^verbatim>\<open>int\<close> is
  \<^verbatim>\<open>std::out_of_range\<close>.
\<close>

definition stoi :: "string \<Rightarrow> error + int" where
  "stoi str =
     (let s1 = dropWhile isspace str;
          neg = (s1 \<noteq> [] \<and> hd s1 = CHR ''-'');
          s2 = (if s1 \<noteq> [] \<and> (hd s1 = CHR ''-'' \<or> hd s1 = CHR ''+'') then tl s1 else s1);
          ds = takeWhile isdigit s2;
          v = foldl (\<lambda>a c. 10 * a + digit_value c) 0 ds
      in if ds = [] then Inl InvalidArgument
         else if neg then (if - v < - (2 ^ 31) then Inl OutOfRange else Inr (- v))
         else (if 2 ^ 31 - 1 < v then Inl OutOfRange else Inr v))"

subsection \<open>TrimString\<close>

text \<open>
  \<^verbatim>\<open>std::strchr(toTrim, c)\<close> with \<^verbatim>\<open>toTrim = " \t\r\n"\<close>: the terminating null
  character counts as part of the searched string, so \<^verbatim>\<open>c = '\0'\<close> is found too.
\<close>

definition strchr_toTrim :: "char \<Rightarrow> bool" where
  "strchr_toTrim c \<longleftrightarrow> c = CHR '' '' \<or> c = CHR 0x09 \<or> c = CHR 0x0D \<or> c = CHR 0x0A
     \<or> c = CHR 0x00"

function trim_front :: "string \<Rightarrow> int \<Rightarrow> int \<Rightarrow> int" where
  "trim_front s sp ep =
     (if sp \<le> ep
      then (if \<not> strchr_toTrim (char_at s (nat sp)) then sp else trim_front s (sp + 1) ep)
      else sp)"
  by pat_completeness auto
termination
  by (relation "measure (\<lambda>(s, sp, ep). nat (ep + 1 - sp))") auto

function trim_back :: "string \<Rightarrow> int \<Rightarrow> int" where
  "trim_back s ep =
     (if 0 \<le> ep
      then (if \<not> strchr_toTrim (char_at s (nat ep)) then ep else trim_back s (ep - 1))
      else ep)"
  by pat_completeness auto
termination
  by (relation "measure (\<lambda>(s, ep). nat (ep + 1))") auto

declare trim_front.simps [simp del] trim_back.simps [simp del]

definition TrimString :: "string \<Rightarrow> error + string" where
  "TrimString xi_string =
     (let ep0 = int (length xi_string) - 1;
          sp = trim_front xi_string 0 ep0;
          ep = trim_back xi_string ep0
      in substr xi_string (nat sp) (size_t_of_int (ep - sp + 1)))"

subsection \<open>ParseValue\<close>

text \<open>
  The loop of \<^verbatim>\<open>ParseValue\<close> runs over the characters of \<^verbatim>\<open>coment = "#;"\<close> in this
  order and leaves at the first of them that occurs anywhere in the string.
\<close>

fun ParseValue_loop :: "string \<Rightarrow> string \<Rightarrow> nat option" where
  "ParseValue_loop xi_string [] = None"
| "ParseValue_loop xi_string (c # coment) =
     (case string_find xi_string c of
        Some ep \<Rightarrow> Some ep
      | None \<Rightarrow> ParseValue_loop xi_string coment)"

definition ParseValue :: "string \<Rightarrow> error + string" where
  "ParseValue xi_string =
     (case ParseValue_loop xi_string ''#;'' of
        Some ep \<Rightarrow> substr xi_string 0 ep
      | None \<Rightarrow> Inr xi_string)"

subsection \<open>Tokenize, CleanArrayString and GetAs\<close>

text \<open>
  \<^verbatim>\<open>Tokenize\<close>: \<open>is_delim\<close> is the 256-entry table \<^verbatim>\<open>map\<close> (a character is looked up
  as it is; the source's cast to \<^verbatim>\<open>unsigned\<close> leaves the table for a character above 0x7F
  where \<^verbatim>\<open>char\<close> is signed), the token vector starts as one empty string, and the last
  loop pops the empty strings at its end.
\<close>

fun Tokenize_loop :: "(char \<Rightarrow> bool) \<Rightarrow> string list \<Rightarrow> string \<Rightarrow> string list" where
  "Tokenize_loop is_delim xo_tokens [] = xo_tokens"
| "Tokenize_loop is_delim xo_tokens (ch # rest) =
     Tokenize_loop is_delim
       (if \<not> is_delim ch then butlast xo_tokens @ [last xo_tokens @ [ch]]
        else if last xo_tokens \<noteq> [] then xo_tokens @ [[]]
        else xo_tokens)
       rest"

function pop_empty :: "string list \<Rightarrow> string list" where
  "pop_empty xo_tokens =
     (if xo_tokens \<noteq> [] \<and> last xo_tokens = [] then pop_empty (butlast xo_tokens)
      else xo_tokens)"
  by pat_completeness auto
termination
  by (relation "measure length") auto

declare pop_empty.simps [simp del]

definition Tokenize :: "string \<Rightarrow> string \<Rightarrow> string list" where
  "Tokenize xi_string xi_delimiters =
     pop_empty (Tokenize_loop (\<lambda>ch. ch \<in> set xi_delimiters) [[]] xi_string)"

text \<open>
  \<^verbatim>\<open>CleanArrayString\<close>, with its \<^verbatim>\<open>assert\<close> compiled in: the condition is the source's,
  \<^verbatim>\<open>!xi_string.empty() || xi_string[0] == '{' || xi_string[xi_string.size()] == '}'\<close>.
  \<open>GetAs_vector_loop\<close> is the loop that casts the tokens one by one.
\<close>

definition CleanArrayString :: "string \<Rightarrow> error + string list" where
  "CleanArrayString xi_string =
     (if \<not> (xi_string \<noteq> [] \<or> char_at xi_string 0 = CHR ''{''
             \<or> char_at xi_string (length xi_string) = CHR ''}'')
      then Inl AssertionFailed
      else and_then (substr xi_string 1 (size_t_of_int (int (length xi_string) - 1)))
             (\<lambda>str. Inr (Tokenize (erase_remove_if isspace str) '','')))"

definition GetAs_bool :: "string \<Rightarrow> bool" where
  "GetAs_bool xi_string = (if erase_remove_if isspace xi_string = ''true'' then True else False)"

definition GetAs_int :: "string \<Rightarrow> error + int" where
  "GetAs_int xi_string = stoi (erase_remove_if isspace xi_string)"

fun GetAs_vector_loop :: "(string \<Rightarrow> error + 'a) \<Rightarrow> string list \<Rightarrow> error + 'a list" where
  "GetAs_vector_loop cast [] = Inr []"
| "GetAs_vector_loop cast (t # vec) =
     and_then (cast t) (\<lambda>v. and_then (GetAs_vector_loop cast vec) (\<lambda>vs. Inr (v # vs)))"

definition GetAs_vector_int :: "string \<Rightarrow> error + int list" where
  "GetAs_vector_int xi_string =
     and_then (CleanArrayString xi_string) (GetAs_vector_loop stoi)"


subsection \<open>Section\<close>

text \<open>
  A \<^verbatim>\<open>Section\<close> owns its child sections inside the nodes of \<^verbatim>\<open>mSections\<close>, and
  \<^verbatim>\<open>mParent\<close> points back into the same structure, so sections live in a store: a list
  of sections indexed by address.  Address 0 is \<^verbatim>\<open>Parser::mRoot\<close>; a section that
  \<^verbatim>\<open>std::map::operator[]\<close> default-constructs gets the next free address.  An address
  is a \<^verbatim>\<open>Section*\<close>, \<open>None\<close> is \<^verbatim>\<open>nullptr\<close>, and \<^verbatim>\<open>mSections\<close> maps a name to the
  address of the section stored under it (the invariant \<open>depth_inv\<close> below shows that
  the parser only follows addresses inside the store).  An iterator kept in \<^verbatim>\<open>mOrderedValues\<close> or
  \<^verbatim>\<open>mOrderedSections\<close> is modelled by the key of the map node it points to (nodes are
  never erased during a parse).
\<close>

type_synonym addr = nat

record Section =
  mValues :: "string \<rightharpoonup> string"
  mSections :: "string \<rightharpoonup> addr"
  mOrderedValues :: "string list"
  mOrderedSections :: "string list"
  mParent :: "addr option"
  mDepth :: nat

definition Section_new :: Section where
  "Section_new =
     \<lparr>mValues = Map.empty, mSections = Map.empty, mOrderedValues = [],
      mOrderedSections = [], mParent = None, mDepth = 0\<rparr>"

text \<open>\<^verbatim>\<open>Section::operator[]\<close>: \<^verbatim>\<open>return mValues[xi_key]\<close>, the value and the section after the call.\<close>

definition Section_index :: "Section \<Rightarrow> string \<Rightarrow> string \<times> Section" where
  "Section_index sec xi_key =
     (case mValues sec xi_key of
        Some v \<Rightarrow> (v, sec)
      | None \<Rightarrow> ([], sec\<lparr>mValues := (mValues sec)(xi_key \<mapsto> [])\<rparr>))"

text \<open>
  \<^verbatim>\<open>s.mSections[name]\<close> for the section at address \<open>a\<close>: the store after the call and the
  address of the section found or default-constructed.
\<close>

definition mSections_index :: "Section list \<Rightarrow> addr \<Rightarrow> string \<Rightarrow> Section list \<times> addr" where
  "mSections_index h a name =
     (case mSections (h ! a) name of
        Some c \<Rightarrow> (h, c)
      | None \<Rightarrow>
          (h[a := (h ! a)\<lparr>mSections := (mSections (h ! a))(name \<mapsto> length h)\<rparr>] @ [Section_new],
           length h))"

subsection \<open>Parser\<close>

text \<open>
  \<open>heap\<close> is the store of sections, \<^verbatim>\<open>mRoot\<close> at address 0 with all the sections nested
  in it; \<open>mConfigFileRef\<close> is the input stream, modelled by the characters not yet read.
\<close>

record Parser =
  heap :: "Section list"
  mConfigFileRef :: string
  mConfigLine :: string
  mLineNumber :: nat

text \<open>
  \<^verbatim>\<open>std::getline\<close>: it fails when no character is left; otherwise it reads up to the next
  line feed, which it consumes, or to the end of the input.
\<close>

definition getline :: "string \<Rightarrow> (string \<times> string) option" where
  "getline input =
     (if input = [] then None
      else Some (takeWhile (\<lambda>c. c \<noteq> CHR 0x0A) input,
                 drop 1 (dropWhile (\<lambda>c. c \<noteq> CHR 0x0A) input)))"

text \<open>
  \<^verbatim>\<open>Parser::ParseLine\<close>: \<open>ParseLine_depth\<close> is its loop, the number of \<open>[\<close> the line
  starts with; the name is \<^verbatim>\<open>substr(xo_depth, length() - 2 * xo_depth)\<close>, the subtraction
  in \<^verbatim>\<open>std::size_t\<close>.
\<close>

fun ParseLine_depth :: "string \<Rightarrow> nat" where
  "ParseLine_depth [] = 0"
| "ParseLine_depth (c # cs) = (if c \<noteq> CHR ''['' then 0 else Suc (ParseLine_depth cs))"

definition ParseLine :: "string \<Rightarrow> error + string \<times> nat" where
  "ParseLine line =
     (let xo_depth = ParseLine_depth line
      in and_then (substr line xo_depth (size_t_of_int (int (length line) - 2 * int xo_depth)))
           (\<lambda>xo_name. Inr (xo_name, xo_depth)))"

text \<open>
  \<^verbatim>\<open>lp = xi_section.mParent; for (i = 0; i < n; ++i) lp = lp->mParent;\<close> followed by the
  dereference \<^verbatim>\<open>lp->mSections\<close>: every dereference of a null pointer is an error.
\<close>

fun walk_up :: "Section list \<Rightarrow> addr option \<Rightarrow> nat \<Rightarrow> error + addr" where
  "walk_up h lp 0 = (case lp of None \<Rightarrow> Inl NullPointer | Some a \<Rightarrow> Inr a)"
| "walk_up h lp (Suc n) =
     (case lp of None \<Rightarrow> Inl NullPointer | Some a \<Rightarrow> walk_up h (mParent (h ! a)) n)"

text \<open>
  The section-header branch of \<^verbatim>\<open>ParseSection\<close> (lines 266 to 297), up to the recursive
  call: the parser after it and the section \<^verbatim>\<open>lp\<close> the recursive call gets.
\<close>

definition header :: "Parser \<Rightarrow> addr \<Rightarrow> error + Parser \<times> addr" where
  "header P xi_section =
     and_then (ParseLine (mConfigLine P)) (\<lambda>(sectionName, depth).
       let h = heap P; d = mDepth (h ! xi_section)
       in if d + 1 < depth
          then Inl (RuntimeError ''Section with wrong depth.'' (mLineNumber P))
          else
            and_then
              (if d = size_t_of_int (int depth - 1) then Inr xi_section
               else walk_up h (mParent (h ! xi_section)) (size_t_of_int (int d - int depth)))
              (\<lambda>par.
                 let (h1, lp) = mSections_index h par sectionName
                 in if mDepth (h1 ! lp) \<noteq> 0
                    then Inl (RuntimeError ''Duplicate section name on the same level.''
                                (mLineNumber P))
                    else
                      let h2 = (if mParent (h1 ! lp) = None
                                then h1[lp := (h1 ! lp)\<lparr>mDepth := depth, mParent := Some par\<rparr>]
                                else h1);
                          h3 = h2[par := (h2 ! par)
                                 \<lparr>mOrderedSections := mOrderedSections (h2 ! par) @ [sectionName]\<rparr>]
                      in Inr (P\<lparr>heap := h3\<rparr>, lp)))"

text \<open>The key/value branch of \<^verbatim>\<open>ParseSection\<close> (lines 301 to 311).\<close>

definition keyvalue :: "Parser \<Rightarrow> addr \<Rightarrow> error + Parser" where
  "keyvalue P xi_section =
     (let line = mConfigLine P
      in case string_find line CHR ''='' of
           None \<Rightarrow> Inl (RuntimeError ''no '=' found'' (mLineNumber P))
         | Some n \<Rightarrow>
             and_then (substr line (n + 1) (size_t_of_int (int (length line) - int n - 1))) (\<lambda>s1.
             and_then (TrimString s1) (\<lambda>s2.
             and_then (ParseValue s2) (\<lambda>v.
             and_then (substr line 0 n) (\<lambda>s3.
             and_then (TrimString s3) (\<lambda>k.
               let sec = heap P ! xi_section
               in case mValues sec k of
                    Some old \<Rightarrow> Inl (RuntimeError ''duplicated key found'' (mLineNumber P))
                  | None \<Rightarrow>
                      Inr (P\<lparr>heap := (heap P)[xi_section := sec
                             \<lparr>mValues := (mValues sec)(k \<mapsto> v),
                              mOrderedValues := mOrderedValues sec @ [k]\<rparr>]\<rparr>)))))))"

text \<open>
  \<^verbatim>\<open>Parser::ParseSection\<close>.  The recursive call on \<^verbatim>\<open>*lp\<close> is kept as the source has it:
  when it returns, the \<^verbatim>\<open>while\<close> loop of the caller goes on with \<^verbatim>\<open>xi_section\<close>.  At the
  end of the input the model leaves \<open>mConfigLine\<close> empty; the source does so after a
  final line feed and keeps the last line otherwise.  Nothing below reads \<open>mConfigLine\<close>
  of a finished parse.
\<close>

function ParseSection :: "Parser \<Rightarrow> addr \<Rightarrow> error + Parser" where
  "ParseSection P xi_section =
     (case getline (mConfigFileRef P) of
        None \<Rightarrow> Inr (P\<lparr>mConfigLine := []\<rparr>)
      | Some (line, rest) \<Rightarrow>
          let P1 = P\<lparr>mConfigFileRef := rest, mConfigLine := line,
                     mLineNumber := mLineNumber P + 1\<rparr>
          in if char_at line 0 = CHR ''#'' \<or> char_at line 0 = CHR '';''
             then ParseSection P1 xi_section
             else
               (case TrimString line of
                  Inl e \<Rightarrow> Inl e
                | Inr trimmed \<Rightarrow>
                    let P2 = P1\<lparr>mConfigLine := trimmed\<rparr>
                    in if trimmed = [] then ParseSection P2 xi_section
                       else if char_at trimmed 0 = CHR ''[''
                       then
                         (case header P2 xi_section of
                            Inl e \<Rightarrow> Inl e
                          | Inr (P3, lp) \<Rightarrow>
                              (case ParseSection P3 lp of
                                 Inl e \<Rightarrow> Inl e
                               | Inr P4 \<Rightarrow> ParseSection P4 xi_section))
                       else
                         (case keyvalue P2 xi_section of
                            Inl e \<Rightarrow> Inl e
                          | Inr P3 \<Rightarrow> ParseSection P3 xi_section)))"
  by pat_completeness auto

lemma getline_shorter: "getline input = Some (line, rest) \<Longrightarrow> length rest < length input"
proof -
  assume g: "getline input = Some (line, rest)"
  then have ne: "input \<noteq> []" and r: "rest = drop 1 (dropWhile (\<lambda>c. c \<noteq> CHR 0x0A) input)"
    by (auto simp: getline_def split: if_splits)
  have "length (dropWhile (\<lambda>c. c \<noteq> CHR 0x0A) input) \<le> length input"
    by (rule length_dropWhile_le)
  with ne r show ?thesis by (cases "dropWhile (\<lambda>c. c \<noteq> CHR 0x0A) input") auto
qed

lemma header_mConfigFileRef:
  "header P x = Inr (P', lp) \<Longrightarrow> mConfigFileRef P' = mConfigFileRef P"
  by (auto simp: header_def and_then_def Let_def split: sum.splits prod.splits if_splits)

lemma keyvalue_mConfigFileRef:
  "keyvalue P x = Inr P' \<Longrightarrow> mConfigFileRef P' = mConfigFileRef P"
  by (auto simp: keyvalue_def and_then_def Let_def split: sum.splits option.splits)

lemma ParseSection_dom_consumes:
  "ParseSection_dom (P, x) \<Longrightarrow> ParseSection P x = Inr P' \<Longrightarrow> mConfigFileRef P' = []"
proof (induction P x arbitrary: P' rule: ParseSection.pinduct)
  case (1 P x)
  note eq = ParseSection.psimps [OF "1.hyps"]
  show ?case
  proof (cases "getline (mConfigFileRef P)")
    case None
    then have "mConfigFileRef P = []" by (simp add: getline_def split: if_splits)
    with "1.prems" None show ?thesis
      by (auto simp: eq)
  next
    case (Some lr)
    obtain line rest where lr: "(line, rest) = lr" by (cases lr) simp
    define P1 where "P1 = P\<lparr>mConfigFileRef := rest, mConfigLine := line,
                           mLineNumber := mLineNumber P + 1\<rparr>"
    show ?thesis
    proof (cases "char_at line 0 = CHR ''#'' \<or> char_at line 0 = CHR '';''")
      case True
      with "1.prems" Some lr have "ParseSection P1 x = Inr P'"
        by (auto simp: eq P1_def)
      then show ?thesis by (rule "1.IH"(1) [OF Some lr P1_def True])
    next
      case False
      with "1.prems" Some lr obtain trimmed where tr: "TrimString line = Inr trimmed"
        by (cases "TrimString line") (auto simp: eq)
      define P2 where "P2 = P1\<lparr>mConfigLine := trimmed\<rparr>"
      note base = Some lr P1_def False tr P2_def
      show ?thesis
      proof (cases "trimmed = []")
        case True
        with "1.prems" Some lr False tr have "ParseSection P2 x = Inr P'"
          by (auto simp: eq P1_def P2_def)
        then show ?thesis by (rule "1.IH"(2) [OF base True])
      next
        case ne: False
        show ?thesis
        proof (cases "char_at trimmed 0 = CHR ''[''")
          case True
          with "1.prems" Some lr False tr ne obtain P3 lp P4
            where h: "header P2 x = Inr (P3, lp)" and p3: "ParseSection P3 lp = Inr P4"
              and p4: "ParseSection P4 x = Inr P'"
            by (auto simp: eq P1_def P2_def Let_def split: sum.splits)
          show ?thesis
            by (rule "1.IH"(4) [OF base ne True h refl p3 p4])
        next
          case nb: False
          with "1.prems" Some lr False tr ne obtain P3
            where k: "keyvalue P2 x = Inr P3" and p3: "ParseSection P3 x = Inr P'"
            by (auto simp: eq P1_def P2_def Let_def split: sum.splits)
          show ?thesis
            by (rule "1.IH"(5) [OF base ne nb k p3])
        qed
      qed
    qed
  qed
qed

termination ParseSection
proof (relation "measure (\<lambda>(P, x). length (mConfigFileRef P))", goal_cases)
  case 1
  show ?case by simp
next
  case 2
  then show ?case by (auto dest!: getline_shorter)
next
  case 3
  then show ?case by (auto dest!: getline_shorter)
next
  case 4
  then show ?case by (auto dest!: header_mConfigFileRef getline_shorter)
next
  case 5
  then show ?case by (auto dest!: ParseSection_dom_consumes getline_shorter)
next
  case 6
  then show ?case by (auto dest!: keyvalue_mConfigFileRef getline_shorter)
qed

declare ParseSection.simps [simp del]

text \<open>
  The constructor \<^verbatim>\<open>Parser(std::istream&)\<close>: \<^verbatim>\<open>mRoot\<close> is a fresh section, the line
  number is 0, and the body calls \<^verbatim>\<open>ParseSection(mRoot)\<close>.
\<close>

definition Parser_init :: "string \<Rightarrow> Parser" where
  "Parser_init xi_file =
     \<lparr>heap = [Section_new], mConfigFileRef = xi_file, mConfigLine = [], mLineNumber = 0\<rparr>"

definition Parser_istream :: "string \<Rightarrow> error + Parser" where
  "Parser_istream xi_file = ParseSection (Parser_init xi_file) 0"

subsection \<open>ExportSection\<close>

text \<open>
  \<^verbatim>\<open>Parser::ExportSection\<close> appends to the output stream \<open>xio_stream\<close>; \<^verbatim>\<open>std::endl\<close>
  writes a line feed.  The recursion follows the child sections, so in the store model it
  carries fuel: \<open>None\<close> is a recursion deeper than the fuel.  \<open>ExportSection_children\<close>
  is the last loop of the function, with its \<^verbatim>\<open>assert\<close>.
\<close>

fun export_values :: "(string \<rightharpoonup> string) \<Rightarrow> string list \<Rightarrow> string \<Rightarrow> error + string" where
  "export_values m [] xio_stream = Inr xio_stream"
| "export_values m (k # its) xio_stream =
     (case m k of
        None \<Rightarrow> Inl InvalidIterator
      | Some v \<Rightarrow> export_values m its (xio_stream @ k @ ''='' @ v @ [CHR 0x0A]))"

fun ExportSection :: "nat \<Rightarrow> Section list \<Rightarrow> string \<Rightarrow> addr \<Rightarrow> string \<Rightarrow> (error + string) option"
  and ExportSection_children ::
    "nat \<Rightarrow> Section list \<Rightarrow> string \<Rightarrow> Section \<Rightarrow> string list \<Rightarrow> (error + string) option"
where
  "ExportSection 0 h xio_stream xi_section xi_section_name = None"
| "ExportSection (Suc fuel) h xio_stream xi_section xi_section_name =
     (let sec = h ! xi_section;
          s1 = xio_stream @ (if xi_section_name \<noteq> [] then [CHR 0x0A] else []);
          s2 = s1 @ replicate (mDepth sec) CHR ''['';
          s3 = s2 @ (if xi_section_name \<noteq> [] then xi_section_name else []);
          s4 = s3 @ replicate (mDepth sec) CHR '']'';
          s5 = s4 @ (if xi_section_name \<noteq> [] then [CHR 0x0A] else [])
      in case export_values (mValues sec) (mOrderedValues sec) s5 of
           Inl e \<Rightarrow> Some (Inl e)
         | Inr s6 \<Rightarrow> ExportSection_children fuel h s6 sec (mOrderedSections sec))"
| "ExportSection_children fuel h xio_stream sec [] = Some (Inr xio_stream)"
| "ExportSection_children fuel h xio_stream sec (name # its) =
     (case mSections sec name of
        None \<Rightarrow> Some (Inl InvalidIterator)
      | Some c \<Rightarrow>
          if mDepth (h ! c) \<noteq> mDepth sec + 1 then Some (Inl AssertionFailed)
          else
            (case ExportSection fuel h xio_stream c name of
               Some (Inr out) \<Rightarrow> ExportSection_children fuel h out sec its
             | r \<Rightarrow> r))"

text \<open>
  The public \<^verbatim>\<open>ExportSection(xio_stream)\<close> exports the root under the empty name.  A
  section at depth \<open>d\<close> is exported with \<open>d\<close> calls on the stack and the store holds at
  least \<open>d + 1\<close> sections, so the size of the store is fuel enough.
\<close>

definition Parser_ExportSection :: "Parser \<Rightarrow> (error + string) option" where
  "Parser_ExportSection P = ExportSection (Suc (length (heap P))) (heap P) [] 0 []"

subsection \<open>Invariants of the store\<close>

text \<open>
  \<open>depth_inv\<close>: the store is not empty, the root (address 0) has depth 0 and no parent,
  every other section has a parent at a smaller address and is one level deeper than it,
  and every entry of an \<^verbatim>\<open>mSections\<close> map points to a section of the store, not the
  root, whose \<^verbatim>\<open>mParent\<close> is the owner of the map.
\<close>

definition depth_inv :: "Section list \<Rightarrow> bool" where
  "depth_inv h \<longleftrightarrow>
     h \<noteq> [] \<and> mParent (h ! 0) = None \<and> mDepth (h ! 0) = 0
     \<and> (\<forall>a < length h. 0 < a \<longrightarrow>
           (\<exists>p < a. mParent (h ! a) = Some p \<and> mDepth (h ! a) = mDepth (h ! p) + 1))
     \<and> (\<forall>p < length h. \<forall>name c. mSections (h ! p) name = Some c \<longrightarrow>
           0 < c \<and> c < length h \<and> mParent (h ! c) = Some p)"

text \<open>
  \<open>order_inv\<close>: the ordered lists hold exactly the keys of their maps, each once.
\<close>

definition order_inv :: "Section \<Rightarrow> bool" where
  "order_inv s \<longleftrightarrow>
     distinct (mOrderedValues s) \<and> set (mOrderedValues s) = dom (mValues s)
     \<and> distinct (mOrderedSections s) \<and> set (mOrderedSections s) = dom (mSections s)"

definition heap_inv :: "Section list \<Rightarrow> bool" where
  "heap_inv h \<longleftrightarrow> depth_inv h \<and> (\<forall>a < length h. order_inv (h ! a))"

text \<open>
  \<open>extends h h'\<close>: every section of \<open>h\<close> is still in \<open>h'\<close>, and its ordered lists in
  \<open>h'\<close> are those of \<open>h\<close> with further entries appended at the end.
\<close>

definition extends :: "Section list \<Rightarrow> Section list \<Rightarrow> bool" where
  "extends h h' \<longleftrightarrow>
     length h \<le> length h'
     \<and> (\<forall>a < length h. prefix (mOrderedValues (h ! a)) (mOrderedValues (h' ! a))
                        \<and> prefix (mOrderedSections (h ! a)) (mOrderedSections (h' ! a)))"

text \<open>
  The four errors that \<^verbatim>\<open>Parser::Error\<close> raises, for line number \<open>n\<close>.
\<close>

definition parse_errors :: "nat \<Rightarrow> error set" where
  "parse_errors n =
     {RuntimeError ''Section with wrong depth.'' n,
      RuntimeError ''Duplicate section name on the same level.'' n,
      RuntimeError ''no '=' found'' n,
      RuntimeError ''duplicated key found'' n}"

section \<open>Properties of the text functions and of the value caster\<close>

subsection \<open>Comment stripping\<close>

lemma ParseValue_loop_hash_semicolon:
  "ParseValue_loop s ''#;'' =
     (if CHR ''#'' \<in> set s then Some (length (takeWhile (\<lambda>x. x \<noteq> CHR ''#'') s))
      else if CHR '';'' \<in> set s then Some (length (takeWhile (\<lambda>x. x \<noteq> CHR '';'') s))
      else None)"
  by (simp add: string_find_def)

text \<open>
  What \<^verbatim>\<open>ParseValue\<close> computes: a \<open>#\<close> anywhere in the string decides the cut, and the
  \<open>;\<close> is looked for only in a string without \<open>#\<close>.
\<close>

lemma ParseValue_eq:
  "ParseValue s =
     Inr (if CHR ''#'' \<in> set s then takeWhile (\<lambda>x. x \<noteq> CHR ''#'') s
          else takeWhile (\<lambda>x. x \<noteq> CHR '';'') s)"
proof -
  have tk: "take (length (takeWhile P s)) s = takeWhile P s" for P :: "char \<Rightarrow> bool"
    by (induction s) auto
  have none: "CHR '';'' \<notin> set s \<Longrightarrow> takeWhile (\<lambda>x. x \<noteq> CHR '';'') s = s"
    by (induction s) auto
  show ?thesis
    unfolding ParseValue_def ParseValue_loop_hash_semicolon
    by (simp add: substr_def tk none)
qed

text \<open>
  Claim C3 (comment stripping cuts at the earliest of \<open>#\<close> and \<open>;\<close>, so at the \<open>;\<close>
  when it comes first).  The code does not: on \<open>a;b#c\<close> the claim asks for \<open>a\<close>, and
  \<^verbatim>\<open>ParseValue\<close> returns \<open>a;b\<close>, because its loop tries \<open>#\<close> first and stops as soon as
  one of the two characters is found anywhere.
\<close>

theorem ParseValue_semicolon_before_hash: "ParseValue ''a;b#c'' = Inr ''a;b''"
  by (simp add: ParseValue_eq)

subsection \<open>Arrays\<close>

lemma CleanArrayString_nonempty:
  "s \<noteq> [] \<Longrightarrow>
   CleanArrayString s = Inr (Tokenize (erase_remove_if isspace (tl s)) '','')"
  by (cases s) (simp_all add: CleanArrayString_def substr_def and_then_def size_t_of_int_def)

text \<open>
  Claim C4 (a value that is empty, or does not begin with \<open>{\<close>, or does not end with
  \<open>}\<close> fails as a malformed array).  The validity check of \<^verbatim>\<open>CleanArrayString\<close> holds
  for every non-empty string, so nothing is rejected for its braces: \<open>3,4,5\<close> loses its
  first character and yields \<open>[4, 5]\<close>, \<open>{1,2\<close> yields \<open>[1, 2]\<close> and \<open>1,2}\<close> yields
  \<open>[2]\<close>.  Only the empty string fails, on the assertion.
\<close>

theorem GetAs_vector_int_unbraced:
  "GetAs_vector_int ''3,4,5'' = Inr [4, 5] \<and> GetAs_vector_int ''{1,2'' = Inr [1, 2]
   \<and> GetAs_vector_int ''1,2}'' = Inr [2] \<and> GetAs_vector_int [] = Inl AssertionFailed"
  by code_simp

text \<open>
  The tokens that \<^verbatim>\<open>CleanArrayString\<close> hands to the casts: \<^verbatim>\<open>substr(1, xi_string.size() - 1)\<close>
  starts after the first character and runs to the end of the string, so the opening
  brace is removed and the closing brace stays in the last token.
\<close>

lemma CleanArrayString_3_4_5: "CleanArrayString ''{3, 4, 5}'' = Inr [''3'', ''4'', ''5}'']"
  by code_simp

lemma CleanArrayString_true: "CleanArrayString ''{true}'' = Inr [''true}'']"
  by code_simp


lemma pop_empty_no_empty: "[] \<notin> set (butlast xs) \<Longrightarrow> [] \<notin> set (pop_empty xs)"
proof (induction xs rule: pop_empty.induct)
  case (1 xs)
  show ?case
  proof (cases "xs \<noteq> [] \<and> last xs = []")
    case True
    from "1.prems" have "[] \<notin> set (butlast (butlast xs))"
      by (auto dest: in_set_butlastD)
    with "1.IH" True show ?thesis
      by (simp add: pop_empty.simps [of xs])
  next
    case False
    then have "set xs \<subseteq> insert (last xs) (set (butlast xs)) \<and> (xs = [] \<or> last xs \<noteq> [])"
      by (cases xs rule: rev_cases) auto
    with "1.prems" False show ?thesis
      by (auto simp: pop_empty.simps [of xs])
  qed
qed

lemma Tokenize_loop_no_empty:
  "[] \<notin> set (butlast toks) \<Longrightarrow> toks \<noteq> [] \<Longrightarrow>
   [] \<notin> set (butlast (Tokenize_loop d toks s))"
proof (induction s arbitrary: toks)
  case Nil
  then show ?case by simp
next
  case (Cons ch s)
  let ?next = "if \<not> d ch then butlast toks @ [last toks @ [ch]]
               else if last toks \<noteq> [] then toks @ [[]] else toks"
  have full: "[] \<notin> set toks" if "last toks \<noteq> []"
  proof -
    have "toks = butlast toks @ [last toks]" using Cons.prems by simp
    then have "set toks = insert (last toks) (set (butlast toks))"
      by (metis Un_insert_right append_Nil2 list.simps(15) set_append)
    with that Cons.prems show ?thesis by auto
  qed
  have "?next \<noteq> []" using Cons.prems by simp
  moreover have "[] \<notin> set (butlast ?next)"
    using Cons.prems full by (simp add: butlast_append)
  ultimately have "[] \<notin> set (butlast (Tokenize_loop d ?next s))"
    by (rule Cons.IH [rotated])
  then show ?case by simp
qed

text \<open>
  Claim C10: \<^verbatim>\<open>Tokenize\<close> never returns an empty token, whatever the string and the
  delimiters, so the empty tokens of consecutive or leading commas are dropped and not
  rejected; \<open>{1,,2}\<close> and \<open>{,1,2}\<close> both cast to \<open>[1, 2]\<close>.
\<close>

theorem Tokenize_drops_empty_tokens:
  "[] \<notin> set (Tokenize s d)
   \<and> GetAs_vector_int ''{1,,2}'' = Inr [1, 2]
   \<and> GetAs_vector_int ''{,1,2}'' = Inr [1, 2]"
proof -
  have "[] \<notin> set (Tokenize s d)"
    unfolding Tokenize_def
    by (rule pop_empty_no_empty, rule Tokenize_loop_no_empty) simp_all
  moreover have "GetAs_vector_int ''{1,,2}'' = Inr [1, 2]" by code_simp
  moreover have "GetAs_vector_int ''{,1,2}'' = Inr [1, 2]" by code_simp
  ultimately show ?thesis by simp
qed

subsection \<open>Booleans\<close>

lemma erase_remove_if_filter: "erase_remove_if p s = filter (\<lambda>c. \<not> p c) s"
  by (induction s) auto

text \<open>
  Claim C7: the cast to \<^verbatim>\<open>bool\<close> is a total function, and it is true exactly when the
  string without its white space (space, tab, line feed, vertical tab, form feed,
  carriage return) is \<open>true\<close>; \<open>True\<close> and \<open>false\<close> give false.
\<close>

theorem GetAs_bool_iff:
  "GetAs_bool s =
     (filter (\<lambda>c. c \<notin> set [CHR '' '', CHR 0x09, CHR 0x0A, CHR 0x0B, CHR 0x0C, CHR 0x0D]) s
        = ''true'')
   \<and> GetAs_bool ''true'' \<and> \<not> GetAs_bool ''True'' \<and> \<not> GetAs_bool ''false''"
proof -
  have "(\<lambda>c. \<not> isspace c) =
        (\<lambda>c. c \<notin> set [CHR '' '', CHR 0x09, CHR 0x0A, CHR 0x0B, CHR 0x0C, CHR 0x0D])"
    by (auto simp: isspace_def)
  then show ?thesis
    by (simp add: GetAs_bool_def erase_remove_if_filter isspace_def)
qed

section \<open>Properties of sections and of the parser\<close>

subsection \<open>Lookup of an absent key\<close>

text \<open>
  Claim C5: \<^verbatim>\<open>Section::operator[]\<close> on a key that the section does not hold returns the
  empty string and leaves an entry with the empty value for the key in \<^verbatim>\<open>mValues\<close>;
  \<^verbatim>\<open>mOrderedValues\<close> and every other field stay as they were.  The operator has no
  failing branch.
\<close>

theorem Section_index_absent:
  assumes "mValues sec k = None"
  shows "fst (Section_index sec k) = []
    \<and> snd (Section_index sec k) = sec\<lparr>mValues := (mValues sec)(k \<mapsto> [])\<rparr>
    \<and> mValues (snd (Section_index sec k)) k = Some []
    \<and> mOrderedValues (snd (Section_index sec k)) = mOrderedValues sec"
  using assms by (simp add: Section_index_def)

theorem Section_index_absent_witness:
  "mValues Section_new ''k'' = None
   \<and> fst (Section_index Section_new ''k'') = []
   \<and> mValues (snd (Section_index Section_new ''k'')) ''k'' = Some []
   \<and> mOrderedValues (snd (Section_index Section_new ''k'')) = []"
proof -
  have absent: "mValues Section_new ''k'' = None" by (simp add: Section_new_def)
  from Section_index_absent [OF absent] absent show ?thesis
    by (simp add: Section_new_def)
qed

subsection \<open>Values keep the blanks before a comment\<close>

text \<open>
  Claim C2 (the line \<open>b=1 # note\<close> stores the value \<open>1\<close>).  The value is trimmed before
  the comment is cut off, not after, so the blank between the value and the \<open>#\<close> stays:
  the parser stores \<open>1\<close> followed by a space.
\<close>

theorem Parser_value_before_comment:
  "\<exists>P. Parser_istream ''b=1 # note'' = Inr P
     \<and> mValues (heap P ! 0) ''b'' = Some ''1 ''
     \<and> mOrderedValues (heap P ! 0) = [''b'']"
proof -
  have "case Parser_istream ''b=1 # note'' of
          Inl e \<Rightarrow> False
        | Inr P \<Rightarrow> mValues (heap P ! 0) ''b'' = Some ''1 ''
                   \<and> mOrderedValues (heap P ! 0) = [''b'']"
    by code_simp
  then show ?thesis
    by (cases "Parser_istream ''b=1 # note''") auto
qed

text \<open>
  Claim C1 (parsing the export of a parsed tree gives the same tree).  For the input
  \<open>b=1 # note\<close> the export is the line \<open>b=1\<close> with a space before its line feed, and
  parsing that line stores the value \<open>1\<close>, not the \<open>1\<close> followed by a space of the
  first tree.
\<close>

theorem Parser_export_parse_differs:
  "\<exists>P out P'. Parser_istream ''b=1 # note'' = Inr P
     \<and> Parser_ExportSection P = Some (Inr out)
     \<and> out = ''b=1 '' @ [CHR 0x0A]
     \<and> Parser_istream out = Inr P'
     \<and> mValues (heap P ! 0) ''b'' = Some ''1 ''
     \<and> mValues (heap P' ! 0) ''b'' = Some ''1''"
proof -
  have "case Parser_istream ''b=1 # note'' of
          Inl e \<Rightarrow> False
        | Inr P \<Rightarrow>
            mValues (heap P ! 0) ''b'' = Some ''1 ''
            \<and> Parser_ExportSection P = Some (Inr (''b=1 '' @ [CHR 0x0A]))"
    by code_simp
  moreover have "case Parser_istream (''b=1 '' @ [CHR 0x0A]) of
          Inl e \<Rightarrow> False
        | Inr P' \<Rightarrow> mValues (heap P' ! 0) ''b'' = Some ''1''"
    by code_simp
  ultimately show ?thesis
    by (cases "Parser_istream ''b=1 # note''"; cases "Parser_istream (''b=1 '' @ [CHR 0x0A])")
       auto
qed

subsection \<open>The invariants hold along a parse\<close>

lemma extends_refl: "extends h h"
  by (simp add: extends_def)

lemma extends_trans: "extends h1 h2 \<Longrightarrow> extends h2 h3 \<Longrightarrow> extends h1 h3"
  unfolding extends_def by (meson le_trans less_le_trans prefix_order.trans)

lemma size_t_of_int_diff: "b \<le> a \<Longrightarrow> size_t_of_int (int a - int b) = a - b"
  by (simp add: size_t_of_int_def nat_diff_distrib')

lemma size_t_of_int_pred: "0 < d \<Longrightarrow> size_t_of_int (int d - 1) = d - 1"
  using size_t_of_int_diff [of 1 d] by simp

lemma size_t_of_int_minus_one: "size_t_of_int (- 1) = 2 ^ 64 - 1"
  by (simp add: size_t_of_int_def)

lemma depth_inv_root:
  "depth_inv h \<Longrightarrow> 0 < length h \<and> mParent (h ! 0) = None \<and> mDepth (h ! 0) = 0"
  by (simp add: depth_inv_def)

lemma depth_inv_parent:
  "depth_inv h \<Longrightarrow> a < length h \<Longrightarrow> 0 < a \<Longrightarrow>
   \<exists>p < a. mParent (h ! a) = Some p \<and> mDepth (h ! a) = mDepth (h ! p) + 1"
  by (simp add: depth_inv_def)

lemma depth_inv_child:
  "depth_inv h \<Longrightarrow> p < length h \<Longrightarrow> mSections (h ! p) name = Some c \<Longrightarrow>
   0 < c \<and> c < length h \<and> mParent (h ! c) = Some p"
  unfolding depth_inv_def by blast

lemma depth_inv_positive:
  "depth_inv h \<Longrightarrow> a < length h \<Longrightarrow> 0 < a \<Longrightarrow> 0 < mDepth (h ! a)"
  using depth_inv_parent by fastforce

lemma walk_up_None: "walk_up h None n = Inl NullPointer"
  by (cases n) simp_all

lemma walk_up_depth:
  "depth_inv h \<Longrightarrow> a < length h \<Longrightarrow> walk_up h (Some a) n = Inr p \<Longrightarrow>
   p < length h \<and> mDepth (h ! p) + n = mDepth (h ! a)"
proof (induction n arbitrary: a)
  case 0
  then show ?case by simp
next
  case (Suc n)
  show ?case
  proof (cases "a = 0")
    case True
    with Suc.prems depth_inv_root [of h] show ?thesis by (simp add: walk_up_None)
  next
    case False
    with Suc.prems obtain q where q: "q < a" "mParent (h ! a) = Some q"
        "mDepth (h ! a) = mDepth (h ! q) + 1"
      using depth_inv_parent [of h a] by auto
    with Suc.prems have "walk_up h (Some q) n = Inr p" by simp
    moreover have "q < length h" using q Suc.prems by simp
    ultimately have "p < length h \<and> mDepth (h ! p) + n = mDepth (h ! q)"
      using Suc.IH Suc.prems(1) by blast
    with q show ?thesis by simp
  qed
qed


lemma ParseLine_depth_positive:
  "char_at line 0 = CHR ''['' \<Longrightarrow> ParseLine line = Inr (name, depth) \<Longrightarrow> 0 < depth"
  by (cases line) (auto simp: ParseLine_def and_then_def char_at_def Let_def split: sum.splits)

lemma header_success:
  assumes inv: "depth_inv (heap P)" and x: "x < length (heap P)"
    and bracket: "char_at (mConfigLine P) 0 = CHR ''[''"
    and ok: "header P x = Inr (P', lp)"
  shows "\<exists>par name depth. par < length (heap P)
     \<and> mSections (heap P ! par) name = None
     \<and> depth = mDepth (heap P ! par) + 1
     \<and> lp = length (heap P)
     \<and> heap P' = (heap P)[par := (heap P ! par)
          \<lparr>mSections := (mSections (heap P ! par))(name \<mapsto> length (heap P)),
           mOrderedSections := mOrderedSections (heap P ! par) @ [name]\<rparr>]
        @ [Section_new\<lparr>mDepth := depth, mParent := Some par\<rparr>]"
proof -
  let ?h = "heap P"
  let ?d = "mDepth (?h ! x)"
  from ok obtain name depth where pl: "ParseLine (mConfigLine P) = Inr (name, depth)"
    by (auto simp: header_def and_then_def split: sum.splits)
  have pos: "0 < depth" using bracket pl by (rule ParseLine_depth_positive)
  then have pred: "size_t_of_int (int depth - 1) = depth - 1" by (rule size_t_of_int_pred)
  have notdeep: "\<not> ?d + 1 < depth"
    using ok pl by (auto simp: header_def and_then_def Let_def split: if_splits)
  let ?target = "if ?d = size_t_of_int (int depth - 1) then Inr x
      else walk_up ?h (mParent (?h ! x)) (size_t_of_int (int ?d - int depth))"
  let ?rest = "\<lambda>par. case mSections_index ?h par name of
       (h1, lp) \<Rightarrow>
         if mDepth (h1 ! lp) \<noteq> 0
         then Inl (RuntimeError ''Duplicate section name on the same level.'' (mLineNumber P))
         else Inr (P\<lparr>heap :=
                (if mParent (h1 ! lp) = None
                 then h1[lp := (h1 ! lp)\<lparr>mDepth := depth, mParent := Some par\<rparr>]
                 else h1)
                [par := ((if mParent (h1 ! lp) = None
                          then h1[lp := (h1 ! lp)\<lparr>mDepth := depth, mParent := Some par\<rparr>]
                          else h1) ! par)
                   \<lparr>mOrderedSections :=
                      mOrderedSections ((if mParent (h1 ! lp) = None
                          then h1[lp := (h1 ! lp)\<lparr>mDepth := depth, mParent := Some par\<rparr>]
                          else h1) ! par) @ [name]\<rparr>]\<rparr>, lp)"
  have unfold: "header P x = and_then ?target ?rest"
    unfolding header_def Let_def using pl notdeep by (simp add: and_then_def)
  with ok obtain par where par: "?target = Inr par" and rest: "?rest par = Inr (P', lp)"
    by (cases ?target) (simp_all add: and_then_def)
  have par_ok: "par < length ?h \<and> depth = mDepth (?h ! par) + 1"
  proof (cases "?d = size_t_of_int (int depth - 1)")
    case True
    with par have px: "par = x" by simp
    from True pred have "?d = depth - 1" by simp
    with pos px x show ?thesis by simp
  next
    case False
    with par have w: "walk_up ?h (mParent (?h ! x)) (size_t_of_int (int ?d - int depth)) = Inr par"
      by simp
    then obtain q where q: "mParent (?h ! x) = Some q"
      by (cases "mParent (?h ! x)") (auto simp: walk_up_None)
    have "0 < x" using q depth_inv_root [OF inv] by (cases x) auto
    with inv x q have qx: "q < x" "?d = mDepth (?h ! q) + 1"
      using depth_inv_parent [of ?h x] by auto
    have le: "depth \<le> ?d"
      using False notdeep pos pred by simp
    then have n: "size_t_of_int (int ?d - int depth) = ?d - depth"
      by (rule size_t_of_int_diff)
    from w q n have "walk_up ?h (Some q) (?d - depth) = Inr par" by simp
    moreover have "q < length ?h" using qx x by simp
    ultimately have r: "par < length ?h \<and> mDepth (?h ! par) + (?d - depth) = mDepth (?h ! q)"
      using walk_up_depth inv by blast
    then show ?thesis using qx(2) le pos by linarith
  qed
  have fresh: "mSections (?h ! par) name = None"
  proof (cases "mSections (?h ! par) name")
    case None then show ?thesis .
  next
    case (Some c)
    with inv par_ok have "0 < c" "c < length ?h"
      using depth_inv_child [of ?h par name c] by auto
    with inv have "mDepth (?h ! c) \<noteq> 0" using depth_inv_positive [of ?h c] by simp
    with rest Some show ?thesis
      by (simp add: mSections_index_def Let_def)
  qed
  from par_ok have pl': "par < length ?h" by simp
  from rest fresh pl'
  have "lp = length ?h \<and> heap P' = ?h[par := (?h ! par)
          \<lparr>mSections := (mSections (?h ! par))(name \<mapsto> length ?h),
           mOrderedSections := mOrderedSections (?h ! par) @ [name]\<rparr>]
        @ [Section_new\<lparr>mDepth := depth, mParent := Some par\<rparr>]"
    by (auto simp: mSections_index_def Let_def nth_append list_update_append Section_new_def)
  with par_ok fresh show ?thesis by blast
qed


lemma keyvalue_success:
  assumes ok: "keyvalue P x = Inr P'"
  shows "\<exists>k v. mValues (heap P ! x) k = None
     \<and> heap P' = (heap P)[x := (heap P ! x)
          \<lparr>mValues := (mValues (heap P ! x))(k \<mapsto> v),
           mOrderedValues := mOrderedValues (heap P ! x) @ [k]\<rparr>]"
  using ok unfolding keyvalue_def Let_def and_then_def
  by (fastforce split: option.splits sum.splits)

lemma heap_inv_keyvalue:
  assumes inv: "heap_inv h" and x: "x < length h" and fresh: "mValues (h ! x) k = None"
    and h': "h' = h[x := (h ! x)\<lparr>mValues := (mValues (h ! x))(k \<mapsto> v),
                                 mOrderedValues := mOrderedValues (h ! x) @ [k]\<rparr>]"
  shows "heap_inv h' \<and> extends h h'"
proof -
  have len: "length h' = length h" by (simp add: h')
  have same: "mParent (h' ! a) = mParent (h ! a) \<and> mDepth (h' ! a) = mDepth (h ! a)
      \<and> mSections (h' ! a) = mSections (h ! a)
      \<and> mOrderedSections (h' ! a) = mOrderedSections (h ! a)" if "a < length h" for a
    using that x by (cases "a = x") (simp_all add: h')
  have "depth_inv h'"
    unfolding depth_inv_def
  proof (intro conjI allI impI)
    show "h' \<noteq> []" using x len by auto
    show "mParent (h' ! 0) = None" "mDepth (h' ! 0) = 0"
      using inv x same [of 0] by (auto simp: heap_inv_def dest: depth_inv_root)
  next
    fix a assume a: "a < length h'" "0 < a"
    then obtain p where "p < a" "mParent (h ! a) = Some p" "mDepth (h ! a) = mDepth (h ! p) + 1"
      using inv depth_inv_parent [of h a] len by (auto simp: heap_inv_def)
    then show "\<exists>p<a. mParent (h' ! a) = Some p \<and> mDepth (h' ! a) = mDepth (h' ! p) + 1"
      using same [of a] same [of p] a len by auto
  next
    fix p name c assume p: "p < length h'" and c: "mSections (h' ! p) name = Some c"
    then have "0 < c \<and> c < length h \<and> mParent (h ! c) = Some p"
      using inv depth_inv_child [of h p name c] same [of p] len by (auto simp: heap_inv_def)
    then show "0 < c" "c < length h'" "mParent (h' ! c) = Some p"
      using same [of c] len by auto
  qed
  moreover have "order_inv (h' ! a)" if a: "a < length h'" for a
  proof (cases "a = x")
    case True
    have o: "order_inv (h ! x)" using inv x by (simp add: heap_inv_def)
    then have "k \<notin> set (mOrderedValues (h ! x))" using fresh by (auto simp: order_inv_def)
    with o show ?thesis using True x by (auto simp: h' order_inv_def)
  next
    case False
    then show ?thesis using inv a len by (simp add: h' heap_inv_def)
  qed
  moreover have "extends h h'"
    unfolding extends_def using len x
    by (auto simp: h' nth_list_update)
  ultimately show ?thesis by (simp add: heap_inv_def)
qed

lemma heap_inv_header:
  assumes inv: "heap_inv h" and par: "par < length h"
    and fresh: "mSections (h ! par) name = None"
    and h': "h' = h[par := (h ! par)
          \<lparr>mSections := (mSections (h ! par))(name \<mapsto> length h),
           mOrderedSections := mOrderedSections (h ! par) @ [name]\<rparr>]
        @ [Section_new\<lparr>mDepth := mDepth (h ! par) + 1, mParent := Some par\<rparr>]"
  shows "heap_inv h' \<and> extends h h'"
proof -
  have len: "length h' = length h + 1" by (simp add: h')
  have new: "h' ! length h = Section_new\<lparr>mDepth := mDepth (h ! par) + 1, mParent := Some par\<rparr>"
    by (simp add: h' nth_append)
  have old: "h' ! a = (if a = par then (h ! par)
          \<lparr>mSections := (mSections (h ! par))(name \<mapsto> length h),
           mOrderedSections := mOrderedSections (h ! par) @ [name]\<rparr> else h ! a)"
    if "a < length h" for a
    using that par by (simp add: h' nth_append nth_list_update)
  have same: "mParent (h' ! a) = mParent (h ! a) \<and> mDepth (h' ! a) = mDepth (h ! a)
      \<and> mValues (h' ! a) = mValues (h ! a)
      \<and> mOrderedValues (h' ! a) = mOrderedValues (h ! a)" if "a < length h" for a
    using that par by (simp add: old)
  have nonempty: "0 < length h" using par by (cases h) simp_all
  have "depth_inv h'"
    unfolding depth_inv_def
  proof (intro conjI allI impI)
    show "h' \<noteq> []" using len by auto
    show "mParent (h' ! 0) = None" "mDepth (h' ! 0) = 0"
      using inv nonempty same [of 0] by (auto simp: heap_inv_def dest: depth_inv_root)
  next
    fix a assume a: "a < length h'" "0 < a"
    show "\<exists>p<a. mParent (h' ! a) = Some p \<and> mDepth (h' ! a) = mDepth (h' ! p) + 1"
    proof (cases "a = length h")
      case True
      then show ?thesis using par new same [of par] by auto
    next
      case False
      with a len have al: "a < length h" by simp
      then obtain p where "p < a" "mParent (h ! a) = Some p"
          "mDepth (h ! a) = mDepth (h ! p) + 1"
        using inv depth_inv_parent [of h a] a by (auto simp: heap_inv_def)
      then show ?thesis using same [of a] same [of p] al by auto
    qed
  next
    fix p nm c assume p: "p < length h'" and c: "mSections (h' ! p) nm = Some c"
    have pl: "p < length h"
    proof (rule ccontr)
      assume "\<not> p < length h"
      with p len have "p = length h" by simp
      with c new show False by (simp add: Section_new_def)
    qed
    have "0 < c \<and> c < length h' \<and> mParent (h' ! c) = Some p"
    proof (cases "p = par \<and> nm = name")
      case True
      with c pl have "c = length h" by (simp add: old)
      with True new nonempty len show ?thesis by simp
    next
      case False
      with c pl have "mSections (h ! p) nm = Some c" by (auto simp: old split: if_splits)
      then have "0 < c \<and> c < length h \<and> mParent (h ! c) = Some p"
        using inv depth_inv_child [of h p nm c] pl by (auto simp: heap_inv_def)
      then show ?thesis using same [of c] len by auto
    qed
    then show "0 < c" "c < length h'" "mParent (h' ! c) = Some p" by auto
  qed
  moreover have "order_inv (h' ! a)" if a: "a < length h'" for a
  proof (cases "a = length h")
    case True
    then show ?thesis by (simp add: new order_inv_def Section_new_def)
  next
    case False
    with a len have al: "a < length h" by simp
    then have o: "order_inv (h ! a)" using inv by (simp add: heap_inv_def)
    show ?thesis
    proof (cases "a = par")
      case True
      from o True fresh have "name \<notin> set (mOrderedSections (h ! par))"
        by (auto simp: order_inv_def)
      with o True al show ?thesis by (auto simp: old order_inv_def)
    next
      case False
      with o al show ?thesis by (simp add: old)
    qed
  qed
  moreover have "extends h h'"
    unfolding extends_def using len
    by (auto simp: old)
  ultimately show ?thesis by (simp add: heap_inv_def)
qed


lemma extends_length: "extends h h' \<Longrightarrow> a < length h \<Longrightarrow> a < length h'"
  by (simp add: extends_def)

lemma ParseSection_inv:
  "heap_inv (heap P) \<Longrightarrow> x < length (heap P) \<Longrightarrow> ParseSection P x = Inr P' \<Longrightarrow>
   heap_inv (heap P') \<and> extends (heap P) (heap P')"
proof (induction P x arbitrary: P' rule: ParseSection.induct)
  case (1 P x)
  note eq = ParseSection.simps [of P x]
  note inv = \<open>heap_inv (heap P)\<close> and x = \<open>x < length (heap P)\<close>
    and ok = \<open>ParseSection P x = Inr P'\<close>
  show ?case
  proof (cases "getline (mConfigFileRef P)")
    case None
    with ok have "heap P' = heap P" by (auto simp: eq)
    with inv show ?thesis by (simp add: extends_refl)
  next
    case (Some lr)
    obtain line rest where lr: "(line, rest) = lr" by (cases lr) simp
    define P1 where "P1 = P\<lparr>mConfigFileRef := rest, mConfigLine := line,
                           mLineNumber := mLineNumber P + 1\<rparr>"
    have h1: "heap P1 = heap P" by (simp add: P1_def)
    show ?thesis
    proof (cases "char_at line 0 = CHR ''#'' \<or> char_at line 0 = CHR '';''")
      case True
      with ok Some lr have "ParseSection P1 x = Inr P'"
        by (auto simp: eq P1_def)
      with "1.IH"(1) [OF Some lr P1_def True, of P'] inv x h1 show ?thesis by simp
    next
      case False
      with ok Some lr obtain trimmed where tr: "TrimString line = Inr trimmed"
        by (cases "TrimString line") (auto simp: eq)
      define P2 where "P2 = P1\<lparr>mConfigLine := trimmed\<rparr>"
      have h2: "heap P2 = heap P" by (simp add: P2_def h1)
      note base = Some lr P1_def False tr P2_def
      show ?thesis
      proof (cases "trimmed = []")
        case True
        with ok Some lr False tr have "ParseSection P2 x = Inr P'"
          by (auto simp: eq P1_def P2_def)
        with "1.IH"(2) [OF base True, of P'] inv x h2 show ?thesis by simp
      next
        case ne: False
        show ?thesis
        proof (cases "char_at trimmed 0 = CHR ''[''")
          case True
          with ok Some lr False tr ne obtain P3 lp P4
            where h: "header P2 x = Inr (P3, lp)" and p3: "ParseSection P3 lp = Inr P4"
              and p4: "ParseSection P4 x = Inr P'"
            by (auto simp: eq P1_def P2_def Let_def split: sum.splits)
          have "char_at (mConfigLine P2) 0 = CHR ''[''" using True by (simp add: P2_def)
          with inv x h2 h obtain par name where par: "par < length (heap P)"
              "mSections (heap P ! par) name = None" "lp = length (heap P)"
              "heap P3 = (heap P)[par := (heap P ! par)
                  \<lparr>mSections := (mSections (heap P ! par))(name \<mapsto> length (heap P)),
                   mOrderedSections := mOrderedSections (heap P ! par) @ [name]\<rparr>]
                @ [Section_new\<lparr>mDepth := mDepth (heap P ! par) + 1, mParent := Some par\<rparr>]"
            using header_success [of P2 x P3 lp] by (auto simp: heap_inv_def)
          from heap_inv_header [OF inv par(1,2,4)]
          have i3: "heap_inv (heap P3)" and e3: "extends (heap P) (heap P3)" by simp_all
          have lp3: "lp < length (heap P3)" using par by simp
          from "1.IH"(3) [OF base ne True h refl i3 lp3 p3]
          have i4: "heap_inv (heap P4)" and e4: "extends (heap P3) (heap P4)" by simp_all
          have x4: "x < length (heap P4)"
            using x e3 e4 by (blast intro: extends_length)
          from "1.IH"(4) [OF base ne True h refl p3 i4 x4 p4]
          have "heap_inv (heap P')" and "extends (heap P4) (heap P')" by simp_all
          with e3 e4 show ?thesis by (blast intro: extends_trans)
        next
          case nb: False
          with ok Some lr False tr ne obtain P3
            where k: "keyvalue P2 x = Inr P3" and p3: "ParseSection P3 x = Inr P'"
            by (auto simp: eq P1_def P2_def Let_def split: sum.splits)
          from keyvalue_success [OF k] h2 obtain key v
            where kv: "mValues (heap P ! x) key = None"
              "heap P3 = (heap P)[x := (heap P ! x)
                \<lparr>mValues := (mValues (heap P ! x))(key \<mapsto> v),
                 mOrderedValues := mOrderedValues (heap P ! x) @ [key]\<rparr>]"
            by auto
          from heap_inv_keyvalue [OF inv x kv]
          have i3: "heap_inv (heap P3)" and e3: "extends (heap P) (heap P3)" by simp_all
          have x3: "x < length (heap P3)" using x e3 by (rule extends_length [rotated])
          from "1.IH"(5) [OF base ne nb k i3 x3 p3]
          have "heap_inv (heap P')" and "extends (heap P3) (heap P')" by simp_all
          with e3 show ?thesis by (blast intro: extends_trans)
        qed
      qed
    qed
  qed
qed

lemma heap_inv_init: "heap_inv (heap (Parser_init input))"
  by (simp add: heap_inv_def depth_inv_def order_inv_def Parser_init_def Section_new_def)


text \<open>
  Claim C8: in the store of every successful parse the root has depth 0 (and no parent),
  every other section has a parent pointer to a section of the store and is exactly one
  level deeper than it, and every section stored in an \<^verbatim>\<open>mSections\<close> map has the owner
  of the map as its parent and is one level deeper than the owner.
\<close>

theorem Parser_depth_invariant:
  assumes "Parser_istream input = Inr P"
  shows "mDepth (heap P ! 0) = 0 \<and> mParent (heap P ! 0) = None
    \<and> (\<forall>a < length (heap P). 0 < a \<longrightarrow>
          (\<exists>p < length (heap P). mParent (heap P ! a) = Some p
             \<and> mDepth (heap P ! a) = mDepth (heap P ! p) + 1))
    \<and> (\<forall>p < length (heap P). \<forall>name c. mSections (heap P ! p) name = Some c \<longrightarrow>
          c < length (heap P) \<and> mParent (heap P ! c) = Some p
          \<and> mDepth (heap P ! c) = mDepth (heap P ! p) + 1)"
proof -
  let ?h = "heap P"
  have "heap_inv ?h"
    using ParseSection_inv [of "Parser_init input" 0 P] assms heap_inv_init [of input]
    by (simp add: Parser_istream_def Parser_init_def)
  then have d: "depth_inv ?h" by (simp add: heap_inv_def)
  have root: "mDepth (?h ! 0) = 0 \<and> mParent (?h ! 0) = None"
    using depth_inv_root [OF d] by simp
  have up: "\<exists>p < length ?h. mParent (?h ! a) = Some p \<and> mDepth (?h ! a) = mDepth (?h ! p) + 1"
    if "a < length ?h" "0 < a" for a
  proof -
    from depth_inv_parent [OF d that] obtain p where "p < a" "mParent (?h ! a) = Some p"
        "mDepth (?h ! a) = mDepth (?h ! p) + 1" by blast
    with that show ?thesis by (intro exI [of _ p]) simp
  qed
  have down: "c < length ?h \<and> mParent (?h ! c) = Some p
      \<and> mDepth (?h ! c) = mDepth (?h ! p) + 1"
    if "p < length ?h" "mSections (?h ! p) name = Some c" for p name c
  proof -
    from depth_inv_child [OF d that] have c: "0 < c" "c < length ?h" "mParent (?h ! c) = Some p"
      by simp_all
    from depth_inv_parent [OF d c(2,1)] c(3) show ?thesis using c by auto
  qed
  from root up down show ?thesis by blast
qed

theorem Parser_depth_invariant_witness:
  "\<exists>P. Parser_istream (''[e]'' @ [CHR 0x0A] @ ''[[d]]'' @ [CHR 0x0A] @ ''[c]'') = Inr P
     \<and> length (heap P) = 4
     \<and> mDepth (heap P ! 0) = 0
     \<and> mSections (heap P ! 1) ''d'' = Some 2
     \<and> mParent (heap P ! 2) = Some 1
     \<and> mDepth (heap P ! 2) = mDepth (heap P ! 1) + 1
     \<and> mDepth (heap P ! 2) = 2"
proof -
  let ?input = "''[e]'' @ [CHR 0x0A] @ ''[[d]]'' @ [CHR 0x0A] @ ''[c]''"
  have "case Parser_istream ?input of
          Inl e \<Rightarrow> False
        | Inr P \<Rightarrow> length (heap P) = 4 \<and> mSections (heap P ! 1) ''d'' = Some 2
                   \<and> mDepth (heap P ! 2) = 2"
    by code_simp
  then obtain P where ev: "Parser_istream ?input = Inr P" and len: "length (heap P) = 4"
      and child: "mSections (heap P ! 1) ''d'' = Some 2" and two: "mDepth (heap P ! 2) = 2"
    by (cases "Parser_istream ?input") auto
  from Parser_depth_invariant [OF ev]
  have root: "mDepth (heap P ! 0) = 0"
    and down: "\<forall>p < length (heap P). \<forall>name c. mSections (heap P ! p) name = Some c \<longrightarrow>
          c < length (heap P) \<and> mParent (heap P ! c) = Some p
          \<and> mDepth (heap P ! c) = mDepth (heap P ! p) + 1"
    by blast+
  have "1 < length (heap P)" using len by simp
  with down child have "mParent (heap P ! 2) = Some 1
      \<and> mDepth (heap P ! 2) = mDepth (heap P ! 1) + 1"
    by blast
  with ev len root child two show ?thesis by blast
qed

text \<open>
  Claim C9: after every successful parse, in every section \<^verbatim>\<open>mOrderedValues\<close> holds
  exactly the keys of \<^verbatim>\<open>mValues\<close> and \<^verbatim>\<open>mOrderedSections\<close> exactly the names of
  \<^verbatim>\<open>mSections\<close>, each once.  The order is the order of insertion: the parser starts
  from a store that satisfies \<open>heap_inv\<close>, and from any such store (so from every state
  a parse goes through) the rest of the parse keeps \<open>heap_inv\<close> and only appends to the
  end of the lists (\<open>extends\<close>); \<open>keyvalue_success\<close> and \<open>header_success\<close> show the one
  key or name that a line appends.
\<close>

theorem ParseSection_order_lists:
  "(Parser_istream input = Inr P \<longrightarrow>
      (\<forall>a < length (heap P).
          distinct (mOrderedValues (heap P ! a))
          \<and> set (mOrderedValues (heap P ! a)) = dom (mValues (heap P ! a))
          \<and> distinct (mOrderedSections (heap P ! a))
          \<and> set (mOrderedSections (heap P ! a)) = dom (mSections (heap P ! a))))
   \<and> heap_inv (heap (Parser_init input))
   \<and> (heap_inv (heap Q) \<and> x < length (heap Q) \<and> ParseSection Q x = Inr Q' \<longrightarrow>
        heap_inv (heap Q') \<and> extends (heap Q) (heap Q'))"
proof (intro conjI impI)
  assume ok: "Parser_istream input = Inr P"
  have "heap_inv (heap P)"
    using ParseSection_inv [of "Parser_init input" 0 P] ok heap_inv_init [of input]
    by (simp add: Parser_istream_def Parser_init_def)
  then show "\<forall>a < length (heap P).
          distinct (mOrderedValues (heap P ! a))
          \<and> set (mOrderedValues (heap P ! a)) = dom (mValues (heap P ! a))
          \<and> distinct (mOrderedSections (heap P ! a))
          \<and> set (mOrderedSections (heap P ! a)) = dom (mSections (heap P ! a))"
    by (simp add: heap_inv_def order_inv_def)
next
  show "heap_inv (heap (Parser_init input))" by (rule heap_inv_init)
next
  assume "heap_inv (heap Q) \<and> x < length (heap Q) \<and> ParseSection Q x = Inr Q'"
  then show "heap_inv (heap Q')" and "extends (heap Q) (heap Q')"
    using ParseSection_inv [of Q x Q'] by simp_all
qed

theorem ParseSection_order_lists_witness:
  "\<exists>P. Parser_istream (''b=1'' @ [CHR 0x0A] @ ''a=2'' @ [CHR 0x0A] @ ''[e]'' @ [CHR 0x0A] @ ''[c]'')
         = Inr P
     \<and> mOrderedValues (heap P ! 0) = [''b'', ''a'']
     \<and> dom (mValues (heap P ! 0)) = {''b'', ''a''}
     \<and> mOrderedSections (heap P ! 0) = [''e'', ''c'']
     \<and> dom (mSections (heap P ! 0)) = {''e'', ''c''}
     \<and> extends [Section_new] (heap P)"
proof -
  let ?input = "''b=1'' @ [CHR 0x0A] @ ''a=2'' @ [CHR 0x0A] @ ''[e]'' @ [CHR 0x0A] @ ''[c]''"
  have "case Parser_istream ?input of
          Inl e \<Rightarrow> False
        | Inr P \<Rightarrow> length (heap P) = 3 \<and> mOrderedValues (heap P ! 0) = [''b'', ''a'']
                   \<and> mOrderedSections (heap P ! 0) = [''e'', ''c'']"
    by code_simp
  then obtain P where ev: "Parser_istream ?input = Inr P" and len: "length (heap P) = 3"
      and ov: "mOrderedValues (heap P ! 0) = [''b'', ''a'']"
      and os: "mOrderedSections (heap P ! 0) = [''e'', ''c'']"
    by (cases "Parser_istream ?input") auto
  note inst = ParseSection_order_lists [of ?input P "Parser_init ?input" 0 P]
  from inst ev have "\<forall>a < length (heap P).
          distinct (mOrderedValues (heap P ! a))
          \<and> set (mOrderedValues (heap P ! a)) = dom (mValues (heap P ! a))
          \<and> distinct (mOrderedSections (heap P ! a))
          \<and> set (mOrderedSections (heap P ! a)) = dom (mSections (heap P ! a))"
    by blast
  with len have "set (mOrderedValues (heap P ! 0)) = dom (mValues (heap P ! 0))"
      and "set (mOrderedSections (heap P ! 0)) = dom (mSections (heap P ! 0))"
    by simp_all
  with ov os have doms: "dom (mValues (heap P ! 0)) = {''b'', ''a''}"
      "dom (mSections (heap P ! 0)) = {''e'', ''c''}"
    by auto
  have start: "heap_inv (heap (Parser_init ?input))" using inst by blast
  have "0 < length (heap (Parser_init ?input))" by (simp add: Parser_init_def)
  moreover have "ParseSection (Parser_init ?input) 0 = Inr P"
    using ev by (simp add: Parser_istream_def)
  ultimately have "extends (heap (Parser_init ?input)) (heap P)"
    using inst start by blast
  then have "extends [Section_new] (heap P)" by (simp add: Parser_init_def)
  with ev ov os doms show ?thesis by blast
qed

subsection \<open>The parser fails only through Parser::Error\<close>

text \<open>
  The calls of \<^verbatim>\<open>substr\<close> in \<^verbatim>\<open>TrimString\<close>, \<^verbatim>\<open>ParseLine\<close> and \<^verbatim>\<open>ParseSection\<close> stay in
  range and the walk along \<^verbatim>\<open>mParent\<close> never meets a null pointer, so a parse that fails
  fails with one of the four errors of \<^verbatim>\<open>Parser::Error\<close>.
\<close>

lemma trim_front_bounds:
  "sp \<le> ep + 1 \<Longrightarrow> sp \<le> trim_front s sp ep \<and> trim_front s sp ep \<le> ep + 1"
proof (induction s sp ep rule: trim_front.induct)
  case (1 s sp ep)
  show ?case
  proof (cases "sp \<le> ep \<and> strchr_toTrim (char_at s (nat sp))")
    case True
    with "1.IH" "1.prems" have "sp + 1 \<le> trim_front s (sp + 1) ep
        \<and> trim_front s (sp + 1) ep \<le> ep + 1"
      by simp
    with True show ?thesis by (simp add: trim_front.simps [of s sp ep])
  next
    case False
    with "1.prems" show ?thesis by (auto simp: trim_front.simps [of s sp ep])
  qed
qed

lemma TrimString_returns: "\<exists>t. TrimString s = Inr t"
proof -
  have "0 \<le> trim_front s 0 (int (length s) - 1) \<and> trim_front s 0 (int (length s) - 1) \<le> int (length s)"
    using trim_front_bounds [of 0 "int (length s) - 1" s] by simp
  then have "nat (trim_front s 0 (int (length s) - 1)) \<le> length s" by linarith
  then show ?thesis by (simp add: TrimString_def substr_def Let_def)
qed

lemma ParseLine_depth_le: "ParseLine_depth line \<le> length line"
  by (induction line) auto

lemma ParseLine_returns: "\<exists>name. ParseLine line = Inr (name, ParseLine_depth line)"
  using ParseLine_depth_le [of line] by (simp add: ParseLine_def substr_def and_then_def Let_def)

lemma string_find_less: "string_find s c = Some n \<Longrightarrow> n < length s"
proof -
  assume "string_find s c = Some n"
  then have c: "c \<in> set s" and n: "n = length (takeWhile (\<lambda>x. x \<noteq> c) s)"
    by (auto simp: string_find_def split: if_splits)
  from c have "takeWhile (\<lambda>x. x \<noteq> c) s \<noteq> s"
    by (metis (mono_tags, lifting) takeWhile_eq_all_conv)
  moreover have "length (takeWhile (\<lambda>x. x \<noteq> c) s) \<le> length s" by (rule length_takeWhile_le)
  ultimately show ?thesis using n
    by (metis le_neq_implies_less takeWhile_eq_take take_all_iff order_refl)
qed

lemma walk_up_returns:
  "depth_inv h \<Longrightarrow> a < length h \<Longrightarrow> n \<le> mDepth (h ! a) \<Longrightarrow> \<exists>p. walk_up h (Some a) n = Inr p"
proof (induction n arbitrary: a)
  case 0
  then show ?case by simp
next
  case (Suc n)
  then have "0 < a" using depth_inv_root [of h] by (cases a) auto
  with Suc.prems obtain q where q: "q < a" "mParent (h ! a) = Some q"
      "mDepth (h ! a) = mDepth (h ! q) + 1"
    using depth_inv_parent [of h a] by auto
  with Suc.prems have "\<exists>p. walk_up h (Some q) n = Inr p"
    by (intro Suc.IH) simp_all
  with q show ?case by simp
qed


lemma keyvalue_error:
  assumes "keyvalue P x = Inl e"
  shows "e \<in> parse_errors (mLineNumber P)"
proof (cases "string_find (mConfigLine P) CHR ''=''")
  case None
  with assms show ?thesis by (simp add: keyvalue_def parse_errors_def)
next
  case (Some n)
  let ?line = "mConfigLine P"
  from string_find_less [OF Some] have n: "n < length ?line" .
  then obtain s1 where s1: "substr ?line (n + 1) (size_t_of_int (int (length ?line) - int n - 1)) = Inr s1"
    by (simp add: substr_def)
  obtain s2 where s2: "TrimString s1 = Inr s2" using TrimString_returns by blast
  obtain v where v: "ParseValue s2 = Inr v" by (simp add: ParseValue_eq)
  obtain s3 where s3: "substr ?line 0 n = Inr s3" by (simp add: substr_def)
  obtain k where k: "TrimString s3 = Inr k" using TrimString_returns by blast
  from assms Some s1 s2 v s3 k show ?thesis
    by (auto simp: keyvalue_def and_then_def Let_def parse_errors_def split: option.splits)
qed

lemma header_error:
  assumes inv: "depth_inv (heap P)" and x: "x < length (heap P)"
    and bracket: "char_at (mConfigLine P) 0 = CHR ''[''"
    and err: "header P x = Inl e"
  shows "e \<in> parse_errors (mLineNumber P)"
proof -
  let ?h = "heap P"
  let ?d = "mDepth (?h ! x)"
  obtain name where pl: "ParseLine (mConfigLine P) = Inr (name, ParseLine_depth (mConfigLine P))"
    using ParseLine_returns by blast
  define depth where "depth = ParseLine_depth (mConfigLine P)"
  have pos: "0 < depth" using bracket pl unfolding depth_def by (rule ParseLine_depth_positive)
  then have pred: "size_t_of_int (int depth - 1) = depth - 1" by (rule size_t_of_int_pred)
  show ?thesis
  proof (cases "?d + 1 < depth")
    case True
    with err pl show ?thesis
      by (simp add: header_def and_then_def Let_def depth_def parse_errors_def)
  next
    case notdeep: False
    let ?target = "if ?d = size_t_of_int (int depth - 1) then Inr x
      else walk_up ?h (mParent (?h ! x)) (size_t_of_int (int ?d - int depth))"
    have "\<exists>par. ?target = Inr par"
    proof (cases "?d = size_t_of_int (int depth - 1)")
      case True
      then show ?thesis by simp
    next
      case False
      with notdeep pos pred have le: "depth \<le> ?d" by simp
      then have n: "size_t_of_int (int ?d - int depth) = ?d - depth"
        by (rule size_t_of_int_diff)
      from le pos have "0 < x" using depth_inv_root [OF inv] by (cases x) auto
      with inv x obtain q where q: "q < x" "mParent (?h ! x) = Some q" "?d = mDepth (?h ! q) + 1"
        using depth_inv_parent [of ?h x] by auto
      have "\<exists>p. walk_up ?h (Some q) (?d - depth) = Inr p"
        using inv q x pos by (intro walk_up_returns) simp_all
      with False q n show ?thesis by simp
    qed
    then obtain par where par: "?target = Inr par" by blast
    from err pl notdeep par show ?thesis
      unfolding header_def Let_def depth_def [symmetric]
      by (auto simp: and_then_def depth_def [symmetric] parse_errors_def split: prod.splits if_splits)
  qed
qed


lemma ParseSection_error:
  "heap_inv (heap P) \<Longrightarrow> x < length (heap P) \<Longrightarrow> ParseSection P x = Inl e \<Longrightarrow>
   \<exists>n. e \<in> parse_errors n"
proof (induction P x arbitrary: e rule: ParseSection.induct)
  case (1 P x)
  note eq = ParseSection.simps [of P x]
  note inv = \<open>heap_inv (heap P)\<close> and x = \<open>x < length (heap P)\<close>
    and err = \<open>ParseSection P x = Inl e\<close>
  show ?case
  proof (cases "getline (mConfigFileRef P)")
    case None
    with err show ?thesis by (simp add: eq)
  next
    case (Some lr)
    obtain line rest where lr: "(line, rest) = lr" by (cases lr) simp
    define P1 where "P1 = P\<lparr>mConfigFileRef := rest, mConfigLine := line,
                           mLineNumber := mLineNumber P + 1\<rparr>"
    have h1: "heap P1 = heap P" by (simp add: P1_def)
    show ?thesis
    proof (cases "char_at line 0 = CHR ''#'' \<or> char_at line 0 = CHR '';''")
      case True
      with err Some lr have "ParseSection P1 x = Inl e"
        by (auto simp: eq P1_def)
      with "1.IH"(1) [OF Some lr P1_def True, of e] inv x h1 show ?thesis by simp
    next
      case False
      obtain trimmed where tr: "TrimString line = Inr trimmed"
        using TrimString_returns by blast
      define P2 where "P2 = P1\<lparr>mConfigLine := trimmed\<rparr>"
      have h2: "heap P2 = heap P" by (simp add: P2_def h1)
      note base = Some lr P1_def False tr P2_def
      show ?thesis
      proof (cases "trimmed = []")
        case True
        with err Some lr False tr have "ParseSection P2 x = Inl e"
          by (auto simp: eq P1_def P2_def)
        with "1.IH"(2) [OF base True, of e] inv x h2 show ?thesis by simp
      next
        case ne: False
        show ?thesis
        proof (cases "char_at trimmed 0 = CHR ''[''")
          case True
          then have br: "char_at (mConfigLine P2) 0 = CHR ''[''" by (simp add: P2_def)
          from inv h2 have d2: "depth_inv (heap P2)" by (simp add: heap_inv_def)
          from x h2 have x2: "x < length (heap P2)" by simp
          show ?thesis
          proof (cases "header P2 x")
            case (Inl e')
            with err Some lr False tr ne True have "e = e'"
              by (auto simp: eq P1_def P2_def Let_def)
            with header_error [OF d2 x2 br Inl] show ?thesis by blast
          next
            case (Inr r)
            obtain P3 lp where r: "r = (P3, lp)" by (cases r)
            with Inr have h: "header P2 x = Inr (P3, lp)" by simp
            from header_success [OF d2 x2 br h] h2 obtain par name
              where par: "par < length (heap P)"
              "mSections (heap P ! par) name = None" "lp = length (heap P)"
              "heap P3 = (heap P)[par := (heap P ! par)
                  \<lparr>mSections := (mSections (heap P ! par))(name \<mapsto> length (heap P)),
                   mOrderedSections := mOrderedSections (heap P ! par) @ [name]\<rparr>]
                @ [Section_new\<lparr>mDepth := mDepth (heap P ! par) + 1, mParent := Some par\<rparr>]"
              by auto
            from heap_inv_header [OF inv par(1,2,4)]
            have i3: "heap_inv (heap P3)" and e3: "extends (heap P) (heap P3)" by simp_all
            have lp3: "lp < length (heap P3)" using par by simp
            show ?thesis
            proof (cases "ParseSection P3 lp")
              case inner: (Inl e')
              with err Some lr False tr ne True h have "e = e'"
                by (auto simp: eq P1_def P2_def Let_def)
              with "1.IH"(3) [OF base ne True h refl i3 lp3 inner] show ?thesis by simp
            next
              case inner: (Inr P4)
              with err Some lr False tr ne True h have p4: "ParseSection P4 x = Inl e"
                by (auto simp: eq P1_def P2_def Let_def)
              from ParseSection_inv [OF i3 lp3 inner]
              have i4: "heap_inv (heap P4)" and e4: "extends (heap P3) (heap P4)" by simp_all
              have x4: "x < length (heap P4)"
                using x e3 e4 by (blast intro: extends_length)
              from "1.IH"(4) [OF base ne True h refl inner i4 x4 p4] show ?thesis .
            qed
          qed
        next
          case nb: False
          show ?thesis
          proof (cases "keyvalue P2 x")
            case (Inl e')
            with err Some lr False tr ne nb have "e = e'"
              by (auto simp: eq P1_def P2_def Let_def)
            with keyvalue_error [OF Inl] show ?thesis by blast
          next
            case (Inr P3)
            with err Some lr False tr ne nb have p3: "ParseSection P3 x = Inl e"
              by (auto simp: eq P1_def P2_def Let_def)
            from keyvalue_success [OF Inr] h2 obtain key v
              where kv: "mValues (heap P ! x) key = None"
                "heap P3 = (heap P)[x := (heap P ! x)
                  \<lparr>mValues := (mValues (heap P ! x))(key \<mapsto> v),
                   mOrderedValues := mOrderedValues (heap P ! x) @ [key]\<rparr>]"
              by auto
            from heap_inv_keyvalue [OF inv x kv]
            have i3: "heap_inv (heap P3)" and e3: "extends (heap P) (heap P3)" by simp_all
            have x3: "x < length (heap P3)" using x e3 by (rule extends_length [rotated])
            from "1.IH"(5) [OF base ne nb Inr i3 x3 p3] show ?thesis .
          qed
        qed
      qed
    qed
  qed
qed

lemma Parser_istream_error:
  "Parser_istream input = Inl e \<Longrightarrow> \<exists>n. e \<in> parse_errors n"
  using ParseSection_error [of "Parser_init input" 0 e] heap_inv_init [of input]
  by (simp add: Parser_istream_def Parser_init_def)

subsection \<open>The export of a parsed tree\<close>

text \<open>
  On the store of a successful parse \<^verbatim>\<open>ExportSection\<close> returns: every iterator of the
  ordered lists points into its map, the \<^verbatim>\<open>assert\<close> on the depth of a child holds, and
  the recursion is no deeper than the fuel of \<open>Parser_ExportSection\<close> (a child has a
  larger address than its parent).
\<close>

lemma export_values_returns:
  "set its \<subseteq> dom m \<Longrightarrow> \<exists>out. export_values m its xio_stream = Inr out"
  by (induction its arbitrary: xio_stream) auto

lemma depth_inv_child_deeper:
  assumes d: "depth_inv h" and a: "a < length h" and c: "mSections (h ! a) name = Some c"
  shows "a < c \<and> c < length h \<and> mDepth (h ! c) = mDepth (h ! a) + 1"
proof -
  from depth_inv_child [OF d a c] have c': "0 < c" "c < length h" "mParent (h ! c) = Some a"
    by simp_all
  from depth_inv_parent [OF d c'(2,1)] c'(3) c'(2) show ?thesis by auto
qed

lemma ExportSection_children_returns:
  assumes inv: "heap_inv h" and a: "a < length h"
    and IH: "\<And>c out name. c < length h \<Longrightarrow> a < c \<Longrightarrow>
               \<exists>out'. ExportSection fuel h out c name = Some (Inr out')"
  shows "set its \<subseteq> dom (mSections (h ! a)) \<Longrightarrow>
         \<exists>out'. ExportSection_children fuel h xio_stream (h ! a) its = Some (Inr out')"
proof (induction its arbitrary: xio_stream)
  case Nil
  then show ?case by simp
next
  case (Cons name its)
  then obtain c where c: "mSections (h ! a) name = Some c" by auto
  from inv have d: "depth_inv h" by (simp add: heap_inv_def)
  from depth_inv_child_deeper [OF d a c]
  have c': "a < c" "c < length h" "mDepth (h ! c) = mDepth (h ! a) + 1" by simp_all
  from IH [OF c'(2,1)] obtain out where
    "ExportSection fuel h xio_stream c name = Some (Inr out)" by blast
  moreover from Cons obtain out' where
    "ExportSection_children fuel h out (h ! a) its = Some (Inr out')" by auto
  ultimately show ?case using c c' by simp
qed

lemma ExportSection_returns:
  "heap_inv h \<Longrightarrow> a < length h \<Longrightarrow> length h - a \<le> fuel \<Longrightarrow>
   \<exists>out. ExportSection fuel h xio_stream a name = Some (Inr out)"
proof (induction fuel arbitrary: a xio_stream name)
  case 0
  then show ?case by simp
next
  case (Suc fuel)
  from Suc.prems have o: "order_inv (h ! a)" by (simp add: heap_inv_def)
  let ?s5 = "(((xio_stream @ (if name \<noteq> [] then [CHR 0x0A] else []))
              @ replicate (mDepth (h ! a)) CHR ''['')
              @ (if name \<noteq> [] then name else []))
              @ replicate (mDepth (h ! a)) CHR '']''"
  from o have "set (mOrderedValues (h ! a)) \<subseteq> dom (mValues (h ! a))"
    by (simp add: order_inv_def)
  from export_values_returns [OF this]
  obtain s6 where s6: "export_values (mValues (h ! a)) (mOrderedValues (h ! a))
       (?s5 @ (if name \<noteq> [] then [CHR 0x0A] else [])) = Inr s6"
    by blast
  have "\<exists>out'. ExportSection fuel h out c nm = Some (Inr out')"
    if "c < length h" "a < c" for c out nm
    using Suc.IH [of c out nm] Suc.prems that by simp
  with Suc.prems o obtain out where
    "ExportSection_children fuel h s6 (h ! a) (mOrderedSections (h ! a)) = Some (Inr out)"
    using ExportSection_children_returns [of h a fuel "mOrderedSections (h ! a)" s6]
    by (auto simp: order_inv_def)
  with s6 show ?case by (simp add: Let_def)
qed

lemma Parser_ExportSection_returns:
  assumes "Parser_istream input = Inr P"
  shows "\<exists>out. Parser_ExportSection P = Some (Inr out)"
proof -
  have inv: "heap_inv (heap P)"
    using ParseSection_inv [of "Parser_init input" 0 P] assms heap_inv_init [of input]
    by (simp add: Parser_istream_def Parser_init_def)
  then have "0 < length (heap P)" using depth_inv_root by (simp add: heap_inv_def)
  with inv show ?thesis
    unfolding Parser_ExportSection_def
    by (intro ExportSection_returns) simp_all
qed

end
